theory Spec2Isabelle
  imports Main "HOL-Library.Multiset" "HOL-Library.List_Lexorder" "HOL-Library.Char_ord"
begin

section \<open>Calendar dates of the Python standard library\<close>

text \<open>
  Both source files work on \<^verbatim>\<open>datetime.date\<close> values. A date object holds a year, a
  month and a day; the constructor \<^verbatim>\<open>date(y, m, d)\<close> raises \<^verbatim>\<open>ValueError\<close> unless
  \<open>1 \<le> y \<le> 9999\<close>, \<open>1 \<le> m \<le> 12\<close> and \<open>1 \<le> d \<le> days_in_month y m\<close>. Dates compare as
  the triples (year, month, day), and the difference of two dates is the difference of
  their proleptic Gregorian ordinals. Python integers are unbounded, hence \<open>int\<close>.
\<close>

datatype error = ValueError | OverflowError

text \<open>
  The integers the database engine binds as parameters are signed 64-bit; binding any
  other Python integer raises \<^verbatim>\<open>OverflowError\<close>.
\<close>

definition sqlite_int :: "int \<Rightarrow> bool" where
  "sqlite_int n = (- (2 ^ 63) \<le> n \<and> n < 2 ^ 63)"

record date =
  year :: int
  month :: int
  day :: int

definition MINYEAR :: int where
  "MINYEAR = 1"

definition MAXYEAR :: int where
  "MAXYEAR = 9999"

definition is_leap :: "int \<Rightarrow> bool" where
  "is_leap y = (y mod 4 = 0 \<and> (y mod 100 \<noteq> 0 \<or> y mod 400 = 0))"

definition days_before_year :: "int \<Rightarrow> int" where
  "days_before_year y = (y - 1) * 365 + (y - 1) div 4 - (y - 1) div 100 + (y - 1) div 400"

definition days_in_month :: "int \<Rightarrow> int \<Rightarrow> int" where
  "days_in_month y m =
     (if m = 2 then (if is_leap y then 29 else 28)
      else if m = 4 \<or> m = 6 \<or> m = 9 \<or> m = 11 then 30
      else 31)"

definition DAYS_BEFORE_MONTH :: "int list" where
  "DAYS_BEFORE_MONTH = [-1, 0, 31, 59, 90, 120, 151, 181, 212, 243, 273, 304, 334]"

definition days_before_month :: "int \<Rightarrow> int \<Rightarrow> int" where
  "days_before_month y m =
     DAYS_BEFORE_MONTH ! nat m + (if 2 < m \<and> is_leap y then 1 else 0)"

definition valid_ymd :: "int \<Rightarrow> int \<Rightarrow> int \<Rightarrow> bool" where
  "valid_ymd y m d =
     (MINYEAR \<le> y \<and> y \<le> MAXYEAR \<and> 1 \<le> m \<and> m \<le> 12 \<and> 1 \<le> d \<and> d \<le> days_in_month y m)"

definition valid_date :: "date \<Rightarrow> bool" where
  "valid_date dt = valid_ymd (year dt) (month dt) (day dt)"

text \<open>The constructor \<^verbatim>\<open>date(y, m, d)\<close>: a date, or \<^verbatim>\<open>ValueError\<close>.\<close>

definition mk_date :: "int \<Rightarrow> int \<Rightarrow> int \<Rightarrow> error + date" where
  "mk_date y m d =
     (if valid_ymd y m d then Inr \<lparr>year = y, month = m, day = d\<rparr> else Inl ValueError)"

text \<open>\<^verbatim>\<open>date.toordinal()\<close>: day 1 is 0001-01-01.\<close>

definition toordinal :: "date \<Rightarrow> int" where
  "toordinal dt = days_before_year (year dt) + days_before_month (year dt) (month dt) + day dt"

text \<open>Comparison of two dates, and of two (month, day) tuples, as Python compares tuples.\<close>

definition date_lt :: "date \<Rightarrow> date \<Rightarrow> bool" where
  "date_lt a b =
     (year a < year b \<or> (year a = year b \<and>
       (month a < month b \<or> (month a = month b \<and> day a < day b))))"

definition date_le :: "date \<Rightarrow> date \<Rightarrow> bool" where
  "date_le a b = (date_lt a b \<or> a = b)"

definition pair_lt :: "int \<times> int \<Rightarrow> int \<times> int \<Rightarrow> bool" where
  "pair_lt p q = (fst p < fst q \<or> (fst p = fst q \<and> snd p < snd q))"

text \<open>\<^verbatim>\<open>(a - b).days\<close> for two dates.\<close>

definition days_between :: "date \<Rightarrow> date \<Rightarrow> int" where
  "days_between a b = toordinal a - toordinal b"

text \<open>
  \<^verbatim>\<open>t + timedelta(days=1)\<close>, the calendar successor of a date (Python raises
  \<^verbatim>\<open>OverflowError\<close> past 9999-12-31; the successor of that day is not a valid date here).
\<close>

definition add_one_day :: "date \<Rightarrow> date" where
  "add_one_day t =
     (if day t < days_in_month (year t) (month t) then t\<lparr>day := day t + 1\<rparr>
      else if month t < 12 then t\<lparr>month := month t + 1, day := 1\<rparr>
      else \<lparr>year = year t + 1, month = 1, day = 1\<rparr>)"

section \<open>The date engine of \<^verbatim>\<open>database.py\<close>\<close>

text \<open>
  \<^verbatim>\<open>BirthdayDatabase.calculate_age\<close>: the difference of the years, less one when
  \<^verbatim>\<open>(today.month, today.day) < (birthday.month, birthday.day)\<close>.
\<close>

definition calculate_age :: "date \<Rightarrow> date \<Rightarrow> int" where
  "calculate_age birthday today =
     (let age = year today - year birthday
      in if pair_lt (month today, day today) (month birthday, day birthday)
         then age - 1 else age)"

text \<open>
  \<^verbatim>\<open>BirthdayDatabase.days_until_birthday\<close>. Each of the two calls of the \<^verbatim>\<open>date\<close>
  constructor can raise; the second one is made only when the first candidate lies
  before today.
\<close>

definition days_until_birthday :: "date \<Rightarrow> date \<Rightarrow> error + int" where
  "days_until_birthday birthday today =
     (case mk_date (year today) (month birthday) (day birthday) of
        Inl e \<Rightarrow> Inl e
      | Inr next_birthday \<Rightarrow>
          (case (if date_lt next_birthday today
                 then mk_date (year today + 1) (month birthday) (day birthday)
                 else Inr next_birthday) of
             Inl e \<Rightarrow> Inl e
           | Inr next_birthday' \<Rightarrow>
               if next_birthday' = today then Inr 0
               else Inr (days_between next_birthday' today)))"

section \<open>The table of people and its listing\<close>

text \<open>
  A row of the table \<^verbatim>\<open>birthdays\<close>. The column \<^verbatim>\<open>birthday_date\<close> holds the ISO text that
  \<^verbatim>\<open>add_person\<close> wrote from a date object and that \<^verbatim>\<open>get_all_people\<close> parses back, so
  a row carries the date itself. A person is the dictionary \<^verbatim>\<open>get_all_people\<close> builds
  from a row, with the two derived fields.
\<close>

record row =
  row_id :: int
  row_name :: string
  row_birthday_date :: date
  row_user_id :: int

record person =
  person_id :: int
  person_name :: string
  birthday_date :: date
  user_id :: int
  age :: int
  days_until :: int

text \<open>
  The two queries of \<^verbatim>\<open>get_all_people\<close>. The branch is taken on the truth value of
  \<^verbatim>\<open>user_id\<close> (\<^verbatim>\<open>if user_id:\<close>): \<^verbatim>\<open>None\<close> and \<^verbatim>\<open>0\<close> are both false in Python.
  \<^verbatim>\<open>ORDER BY name\<close> compares the names bytewise; the order of rows with equal names
  is the engine's choice, taken here to be the stored order. The scoped query binds
  \<^verbatim>\<open>user_id\<close> as a parameter, which raises when the integer does not fit.
\<close>

definition select_rows :: "row list \<Rightarrow> int option \<Rightarrow> error + row list" where
  "select_rows rows uid =
     (case uid of
        None \<Rightarrow> Inr (sort_key row_name rows)
      | Some u \<Rightarrow>
          if u \<noteq> 0
          then (if sqlite_int u
                then Inr (sort_key row_name (filter (\<lambda>r. row_user_id r = u) rows))
                else Inl OverflowError)
          else Inr (sort_key row_name rows))"

definition derive_person :: "date \<Rightarrow> row \<Rightarrow> error + person" where
  "derive_person today r =
     (case days_until_birthday (row_birthday_date r) today of
        Inl e \<Rightarrow> Inl e
      | Inr n \<Rightarrow>
          Inr \<lparr>person_id = row_id r, person_name = row_name r,
               birthday_date = row_birthday_date r, user_id = row_user_id r,
               age = calculate_age (row_birthday_date r) today, days_until = n\<rparr>)"

text \<open>The loop over the fetched rows: the first exception leaves the function.\<close>

fun derive_people :: "date \<Rightarrow> row list \<Rightarrow> error + person list" where
  "derive_people today [] = Inr []"
| "derive_people today (r # rs) =
     (case derive_person today r of
        Inl e \<Rightarrow> Inl e
      | Inr p \<Rightarrow>
          (case derive_people today rs of
             Inl e \<Rightarrow> Inl e
           | Inr ps \<Rightarrow> Inr (p # ps)))"

definition get_all_people :: "row list \<Rightarrow> date \<Rightarrow> int option \<Rightarrow> error + person list" where
  "get_all_people rows today uid =
     (case select_rows rows uid of
        Inl e \<Rightarrow> Inl e
      | Inr fetched \<Rightarrow> derive_people today fetched)"

definition get_people_with_birthday_in_days ::
  "row list \<Rightarrow> date \<Rightarrow> int \<Rightarrow> error + person list" where
  "get_people_with_birthday_in_days rows today days =
     (case get_all_people rows today None of
        Inl e \<Rightarrow> Inl e
      | Inr people \<Rightarrow> Inr (filter (\<lambda>p. days_until p = days) people))"

section \<open>The reminder scheduler of \<^verbatim>\<open>main.py\<close>\<close>

text \<open>
  One pass of the loop body of \<^verbatim>\<open>send_birthday_reminders\<close>, run without any handler
  of the interactive path in between. The dictionary \<^verbatim>\<open>user_reminders\<close> keeps its keys
  in the order of their first insertion, so it is an association list.
\<close>

fun append_person :: "person \<Rightarrow> (int \<times> person list) list \<Rightarrow> (int \<times> person list) list" where
  "append_person p [] = [(user_id p, [p])]"
| "append_person p ((k, ps) # rest) =
     (if k = user_id p then (k, ps @ [p]) # rest else (k, ps) # append_person p rest)"

definition group_by_user :: "person list \<Rightarrow> (int \<times> person list) list" where
  "group_by_user people = foldl (\<lambda>d p. append_person p d) [] people"

text \<open>
  A delivery attempt as the tick makes it: the recipient, the person the message is about,
  the age the text announces (\<^verbatim>\<open>person['age'] + 1\<close>), and whether \<^verbatim>\<open>bot.send_message\<close>
  returned (\<open>True\<close>) or raised (\<open>False\<close>). The outcome of a call is not the program's to
  decide: \<open>failing\<close> is the set of the positions, in the sequence of the tick's calls, of
  the calls that raise.
\<close>

record attempt =
  attempt_user :: int
  attempt_person :: person
  announced_age :: int
  attempt_ok :: bool

type_synonym tick_state = "attempt list \<times> int set"

fun send_group :: "nat set \<Rightarrow> int \<Rightarrow> person list \<Rightarrow> tick_state \<Rightarrow> tick_state" where
  "send_group failing u [] st = st"
| "send_group failing u (p # ps) (log, active_users) =
     send_group failing u ps
       (if length log \<in> failing
        then (log @ [\<lparr>attempt_user = u, attempt_person = p,
                       announced_age = age p + 1, attempt_ok = False\<rparr>],
              active_users - {u})
        else (log @ [\<lparr>attempt_user = u, attempt_person = p,
                       announced_age = age p + 1, attempt_ok = True\<rparr>],
              active_users))"

fun send_all :: "nat set \<Rightarrow> (int \<times> person list) list \<Rightarrow> tick_state \<Rightarrow> tick_state" where
  "send_all failing [] st = st"
| "send_all failing ((u, ps) # groups) (log, active_users) =
     send_all failing groups
       (if u \<in> active_users then send_group failing u ps (log, active_users)
        else (log, active_users))"

text \<open>
  The result of a tick: the attempts made, the reachability set it leaves, and the seconds
  the loop sleeps before the next tick (an hour, or a minute after an exception).
\<close>

record tick_result =
  attempts :: "attempt list"
  active_after :: "int set"
  sleep_seconds :: int

definition send_birthday_reminders_tick ::
  "row list \<Rightarrow> date \<Rightarrow> nat set \<Rightarrow> int set \<Rightarrow> tick_result" where
  "send_birthday_reminders_tick rows today failing active_users =
     (case get_people_with_birthday_in_days rows today 1 of
        Inl e \<Rightarrow> \<lparr>attempts = [], active_after = active_users, sleep_seconds = 60\<rparr>
      | Inr people \<Rightarrow>
          (let st = (if people \<noteq> []
                     then send_all failing (group_by_user people) ([], active_users)
                     else ([], active_users))
           in \<lparr>attempts = fst st, active_after = snd st, sleep_seconds = 60 * 60\<rparr>))"

section \<open>The date step of the add-person dialog\<close>

text \<open>
  The state the handlers of \<^verbatim>\<open>main.py\<close> share: the table with the counter of its
  \<^verbatim>\<open>AUTOINCREMENT\<close> key, the set \<^verbatim>\<open>active_users\<close>, and for every user the dialog state
  and the name the dialog has stored.
\<close>

record database =
  rows_of :: "row list"
  last_id :: int

datatype AddPersonStates = waiting_for_name | waiting_for_date

record bot_state =
  db :: database
  active_users :: "int set"
  fsm_state :: "int \<Rightarrow> AddPersonStates option"
  fsm_data :: "int \<Rightarrow> string option"

text \<open>
  \<^verbatim>\<open>add_person\<close>: the insertion, and whether it succeeded. The column \<^verbatim>\<open>name\<close> is
  \<^verbatim>\<open>NOT NULL\<close>, so a missing name makes the statement fail, and a \<^verbatim>\<open>user_id\<close> that
  does not fit a signed 64-bit integer cannot be bound; either exception is caught, the
  function returns \<^verbatim>\<open>False\<close> and the table is as before. The record holds the contents
  of the table only, not the state of the connection the failed call leaves open.
\<close>

definition add_person :: "database \<Rightarrow> string option \<Rightarrow> date \<Rightarrow> int \<Rightarrow> database \<times> bool" where
  "add_person d name birthday uid =
     (case name of
        None \<Rightarrow> (d, False)
      | Some n \<Rightarrow>
          if \<not> sqlite_int uid then (d, False)
          else
          (\<lparr>rows_of = rows_of d @
               [\<lparr>row_id = last_id d + 1, row_name = n,
                 row_birthday_date = birthday, row_user_id = uid\<rparr>],
            last_id = last_id d + 1\<rparr>, True))"

text \<open>
  The answers \<^verbatim>\<open>process_date\<close> can send, by their content; \<open>NoReply\<close> is the handler left
  by an exception its \<^verbatim>\<open>except ValueError\<close> clause does not catch, with no answer sent.
\<close>

datatype reply =
  FutureDateRetry
  | Added "string option" date int int
  | AddFailed
  | BadFormatRetry
  | NoReply error

definition clear :: "int \<Rightarrow> bot_state \<Rightarrow> bot_state" where
  "clear uid st = st\<lparr>fsm_state := (fsm_state st)(uid := None),
                       fsm_data := (fsm_data st)(uid := None)\<rparr>"

text \<open>
  \<^verbatim>\<open>process_date\<close>, the handler of a text message that arrives in the state
  \<^verbatim>\<open>waiting_for_date\<close>, with the current date \<^verbatim>\<open>date.today()\<close>. The parameter \<open>parse\<close> stands for
  \<^verbatim>\<open>datetime.strptime(text.strip(), '%d.%m.%Y').date()\<close> of the standard library, which
  returns a valid date or raises \<^verbatim>\<open>ValueError\<close>. The \<^verbatim>\<open>ValueError\<close> that
  \<^verbatim>\<open>days_until_birthday\<close> raises after a successful insertion reaches the same
  \<^verbatim>\<open>except\<close> clause, before the dialog state is cleared.
\<close>

definition process_date ::
  "(string \<Rightarrow> error + date) \<Rightarrow> date \<Rightarrow> int \<Rightarrow> string \<Rightarrow> bot_state \<Rightarrow> bot_state \<times> reply" where
  "process_date parse today uid text st =
     (let st1 = st\<lparr>active_users := insert uid (active_users st)\<rparr>;
          name = fsm_data st1 uid
      in case parse text of
           Inl ValueError \<Rightarrow> (st1, BadFormatRetry)
         | Inl e \<Rightarrow> (st1, NoReply e)
         | Inr birthday \<Rightarrow>
             if date_lt today birthday then (st1, FutureDateRetry)
             else
               (case add_person (db st1) name birthday uid of
                  (db', True) \<Rightarrow>
                    (case days_until_birthday birthday today of
                       Inl ValueError \<Rightarrow> (st1\<lparr>db := db'\<rparr>, BadFormatRetry)
                     | Inl e \<Rightarrow> (st1\<lparr>db := db'\<rparr>, NoReply e)
                     | Inr n \<Rightarrow>
                         (clear uid (st1\<lparr>db := db'\<rparr>),
                          Added name birthday (calculate_age birthday today) n))
                | (db', False) \<Rightarrow> (clear uid (st1\<lparr>db := db'\<rparr>), AddFailed)))"

section \<open>The contract of \<^verbatim>\<open>days_until\<close> as the specification words it\<close>

text \<open>
  The candidate is the triple (today's year, birth month, birth day); when it is strictly
  before today, the year after today's is taken instead; the result is 0 when the
  candidate is today, and the count of days from today to the candidate otherwise. The
  triples are compared and counted as they stand, valid dates or not.
\<close>

definition days_until_contract :: "date \<Rightarrow> date \<Rightarrow> int" where
  "days_until_contract b t =
     (let candidate = \<lparr>year = year t, month = month b, day = day b\<rparr>;
          candidate' =
            (if date_lt candidate t then \<lparr>year = year t + 1, month = month b, day = day b\<rparr>
             else candidate)
      in if candidate' = t then 0 else toordinal candidate' - toordinal t)"

section \<open>Auxiliary notions for the scheduler's properties\<close>

text \<open>
  A grouping is keyed when every person stands under the key of the own owner; the failed
  users of a sequence of attempts are the recipients of its failed deliveries.
\<close>

definition keyed :: "(int \<times> person list) list \<Rightarrow> bool" where
  "keyed d = (\<forall>(k, ps) \<in> set d. \<forall>p \<in> set ps. user_id p = k)"

definition failed_users :: "attempt list \<Rightarrow> int set" where
  "failed_users as = attempt_user ` {a \<in> set as. \<not> attempt_ok a}"

section \<open>The tables of the scenarios\<close>

text \<open>
  Scenario E of the specification: on 14 March 2024 the owner 7 has two people whose
  birthday is tomorrow. Scenario D with bystanders: the owner 7 has one person whose
  birthday is tomorrow and one whose birthday is in July, the owner 8 has one whose
  birthday is tomorrow.
\<close>

abbreviation march_14 :: date where
  "march_14 \<equiv> \<lparr>year = 2024, month = 3, day = 14\<rparr>"


abbreviation rows_D :: "row list" where
  "rows_D \<equiv>
     [\<lparr>row_id = 1, row_name = ''Dora'',
       row_birthday_date = \<lparr>year = 2001, month = 7, day = 1\<rparr>, row_user_id = 7\<rparr>,
      \<lparr>row_id = 2, row_name = ''Carl'',
       row_birthday_date = \<lparr>year = 1970, month = 3, day = 15\<rparr>, row_user_id = 8\<rparr>,
      \<lparr>row_id = 3, row_name = ''Ann'',
       row_birthday_date = \<lparr>year = 1990, month = 3, day = 15\<rparr>, row_user_id = 7\<rparr>]"

text \<open>
  A table with a leap-day birth date, seen in a year that is not a leap year: on 1 June
  2023 the owner 7 has Ann, whose birthday is tomorrow, and the owner 6 has Eve, born on
  29 February 2000.
\<close>

abbreviation june_1 :: date where
  "june_1 \<equiv> \<lparr>year = 2023, month = 6, day = 1\<rparr>"

abbreviation rows_F :: "row list" where
  "rows_F \<equiv>
     [\<lparr>row_id = 1, row_name = ''Ann'',
       row_birthday_date = \<lparr>year = 1990, month = 6, day = 2\<rparr>, row_user_id = 7\<rparr>,
      \<lparr>row_id = 2, row_name = ''Eve'',
       row_birthday_date = \<lparr>year = 2000, month = 2, day = 29\<rparr>, row_user_id = 6\<rparr>]"

section \<open>Properties of the calendar\<close>

lemma div_step:
  fixes y k :: int
  assumes "0 < k"
  shows "y div k = (y - 1) div k + (if y mod k = 0 then 1 else 0)"
proof -
  define q where "q = (y - 1) div k"
  define r where "r = (y - 1) mod k"
  have r: "0 \<le> r" "r < k" using assms by (simp_all add: r_def)
  have "y - 1 = k * q + r" unfolding q_def r_def by simp
  then have y: "y = k * q + (r + 1)" by simp
  show ?thesis
  proof (cases "r + 1 = k")
    case True
    with y have "y = k * (q + 1)" by (simp add: algebra_simps)
    then have "y div k = q + 1" "y mod k = 0" using assms by simp_all
    then show ?thesis by (simp add: q_def)
  next
    case False
    with r have b: "0 \<le> r + 1" "r + 1 < k" by simp_all
    have "y div k = q" using int_div_pos_eq [OF y b] .
    moreover have "y mod k = r + 1" using int_mod_pos_eq [OF y b] .
    ultimately show ?thesis using r by (simp add: q_def)
  qed
qed

text \<open>A year has 365 days, and 366 when it is a leap year.\<close>

lemma days_before_year_Suc:
  "days_before_year (y + 1) = days_before_year y + (if is_leap y then 366 else 365)"
proof -
  define a where "a = (y - 1) div 4"
  define b where "b = (y - 1) div 100"
  define c where "c = (y - 1) div 400"
  have a: "y div 4 = a + (if y mod 4 = 0 then 1 else 0)"
    unfolding a_def by (rule div_step) simp
  have b: "y div 100 = b + (if y mod 100 = 0 then 1 else 0)"
    unfolding b_def by (rule div_step) simp
  have c: "y div 400 = c + (if y mod 400 = 0 then 1 else 0)"
    unfolding c_def by (rule div_step) simp
  have d: "y mod 400 = 0 \<Longrightarrow> y mod 100 = 0"
    by (rule mod_mod_cancel [of 100 400 y, THEN subst]) simp_all
  have e: "y mod 100 = 0 \<Longrightarrow> y mod 4 = 0"
    by (rule mod_mod_cancel [of 4 100 y, THEN subst]) simp_all
  have "days_before_year (y + 1) = y * 365 + y div 4 - y div 100 + y div 400"
    by (simp add: days_before_year_def)
  also have "\<dots> = y * 365 + a - b + c + (if is_leap y then 1 else 0)"
    unfolding a b c is_leap_def using d e
    by (cases "y mod 4 = 0"; cases "y mod 100 = 0"; cases "y mod 400 = 0"; simp)
  also have "\<dots> = days_before_year y + (if is_leap y then 366 else 365)"
    by (simp add: days_before_year_def a_def b_def c_def algebra_simps)
  finally show ?thesis .
qed

lemma not_leap_consecutive: "is_leap y \<Longrightarrow> \<not> is_leap (y + 1)"
proof
  assume "is_leap y" and "is_leap (y + 1)"
  then have "y mod 4 = 0" "(y + 1) mod 4 = 0" by (simp_all add: is_leap_def)
  then show False by presburger
qed

lemma month_cases:
  "1 \<le> m \<Longrightarrow> m \<le> 12 \<Longrightarrow>
   m = 1 \<or> m = 2 \<or> m = 3 \<or> m = 4 \<or> m = 5 \<or> m = 6 \<or>
   m = 7 \<or> m = 8 \<or> m = 9 \<or> m = 10 \<or> m = 11 \<or> m = (12::int)"
  by arith

lemma days_before_month_simps:
  "days_before_month y 1 = 0"
  "days_before_month y 2 = 31"
  "days_before_month y 3 = 59 + (if is_leap y then 1 else 0)"
  "days_before_month y 4 = 90 + (if is_leap y then 1 else 0)"
  "days_before_month y 5 = 120 + (if is_leap y then 1 else 0)"
  "days_before_month y 6 = 151 + (if is_leap y then 1 else 0)"
  "days_before_month y 7 = 181 + (if is_leap y then 1 else 0)"
  "days_before_month y 8 = 212 + (if is_leap y then 1 else 0)"
  "days_before_month y 9 = 243 + (if is_leap y then 1 else 0)"
  "days_before_month y 10 = 273 + (if is_leap y then 1 else 0)"
  "days_before_month y 11 = 304 + (if is_leap y then 1 else 0)"
  "days_before_month y 12 = 334 + (if is_leap y then 1 else 0)"
  by (simp_all add: days_before_month_def DAYS_BEFORE_MONTH_def)

text \<open>The table of the days before a month is the running sum of the months' lengths.\<close>

lemma days_before_month_next:
  assumes "1 \<le> m" "m < 12"
  shows "days_before_month y (m + 1) = days_before_month y m + days_in_month y m"
proof -
  from assms have
    "m = 1 \<or> m = 2 \<or> m = 3 \<or> m = 4 \<or> m = 5 \<or> m = 6 \<or> m = 7 \<or> m = 8 \<or> m = 9 \<or> m = 10 \<or> m = 11"
    by arith
  then show ?thesis
    by (elim disjE) (simp_all add: days_before_month_simps days_in_month_def)
qed

lemma days_before_month_mono:
  assumes "1 \<le> m" "m < m'" "m' \<le> 12"
  shows "days_before_month y m + days_in_month y m \<le> days_before_month y m'"
proof -
  have "m + 1 \<le> k \<Longrightarrow> k \<le> 12 \<Longrightarrow>
        days_before_month y m + days_in_month y m \<le> days_before_month y k" for k
  proof (induction k rule: int_ge_induct)
    case base
    then show ?case using assms by (simp add: days_before_month_next)
  next
    case (step i)
    then have "days_before_month y (i + 1) = days_before_month y i + days_in_month y i"
      using assms by (intro days_before_month_next) simp_all
    moreover have "0 \<le> days_in_month y i" by (simp add: days_in_month_def)
    ultimately show ?case using step by simp
  qed
  then show ?thesis using assms by simp
qed

text \<open>Within one year the day of the year follows the order of the (month, day) pairs.\<close>

lemma day_of_year_less:
  assumes "valid_ymd y m d" "valid_ymd y m' d'" "pair_lt (m, d) (m', d')"
  shows "days_before_month y m + d < days_before_month y m' + d'"
proof (cases "m < m'")
  case True
  then have "days_before_month y m + days_in_month y m \<le> days_before_month y m'"
    using assms by (intro days_before_month_mono) (simp_all add: valid_ymd_def)
  then show ?thesis using assms by (simp add: valid_ymd_def)
next
  case False
  then show ?thesis using assms by (simp add: pair_lt_def)
qed

lemma day_of_year_bounds:
  assumes "valid_ymd y m d"
  shows "1 \<le> days_before_month y m + d"
    and "days_before_month y m + d \<le> (if is_leap y then 366 else 365)"
proof -
  from assms have m: "1 \<le> m" "m \<le> 12" and d: "1 \<le> d" "d \<le> days_in_month y m"
    by (simp_all add: valid_ymd_def)
  from month_cases [OF m] d show "1 \<le> days_before_month y m + d"
    by (elim disjE) (simp_all add: days_before_month_simps)
  from month_cases [OF m] d show "days_before_month y m + d \<le> (if is_leap y then 366 else 365)"
    by (elim disjE) (simp_all add: days_before_month_simps days_in_month_def split: if_splits)
qed

lemma days_before_month_next_year:
  assumes "1 \<le> m" "m \<le> 12"
  shows "days_before_month (y + 1) m =
         days_before_month y m +
           (if 2 < m then (if is_leap (y + 1) then 1 else 0) - (if is_leap y then 1 else 0)
            else 0)"
  using month_cases [OF assms]
  by (elim disjE) (simp_all add: days_before_month_simps)

lemma days_before_year_mono:
  assumes "y \<le> y'"
  shows "days_before_year y \<le> days_before_year y'"
  using assms
proof (induction y' rule: int_ge_induct)
  case base
  show ?case by simp
next
  case (step i)
  then show ?case by (simp add: days_before_year_Suc)
qed

lemma toordinal_less:
  assumes "valid_date a" "valid_date b" "date_lt a b"
  shows "toordinal a < toordinal b"
proof (cases "year a < year b")
  case True
  then have "days_before_year (year a + 1) \<le> days_before_year (year b)"
    by (intro days_before_year_mono) simp
  moreover have "days_before_month (year a) (month a) + day a \<le> (if is_leap (year a) then 366 else 365)"
    using assms(1) by (intro day_of_year_bounds) (simp add: valid_date_def)
  moreover have "1 \<le> days_before_month (year b) (month b) + day b"
    using assms(2) by (intro day_of_year_bounds) (simp add: valid_date_def)
  ultimately show ?thesis
    by (simp add: toordinal_def days_before_year_Suc split: if_splits)
next
  case False
  with assms(3) have y: "year a = year b"
    and p: "pair_lt (month a, day a) (month b, day b)"
    by (auto simp: date_lt_def pair_lt_def)
  have "days_before_month (year b) (month a) + day a < days_before_month (year b) (month b) + day b"
    using assms(1,2) p y by (intro day_of_year_less) (simp_all add: valid_date_def)
  then show ?thesis by (simp add: toordinal_def y)
qed

lemma date_trichotomy: "date_lt a b \<or> a = b \<or> date_lt b a"
  by (cases a; cases b) (auto simp: date_lt_def)

lemma toordinal_inj:
  assumes "valid_date a" "valid_date b" "toordinal a = toordinal b"
  shows "a = b"
  using date_trichotomy [of a b] toordinal_less [OF assms(1,2)] toordinal_less [OF assms(2,1)] assms(3)
  by auto

lemma toordinal_add_one_day:
  assumes "valid_date t"
  shows "toordinal (add_one_day t) = toordinal t + 1"
proof -
  from assms have m: "1 \<le> month t" "month t \<le> 12"
    and d: "1 \<le> day t" "day t \<le> days_in_month (year t) (month t)"
    by (simp_all add: valid_date_def valid_ymd_def)
  show ?thesis
  proof (cases "day t < days_in_month (year t) (month t)")
    case True
    then show ?thesis by (simp add: add_one_day_def toordinal_def)
  next
    case last: False
    show ?thesis
    proof (cases "month t < 12")
      case True
      with last d m show ?thesis
        by (simp add: add_one_day_def toordinal_def days_before_month_next)
    next
      case False
      with m have "month t = 12" by simp
      with last d show ?thesis
        by (simp add: add_one_day_def toordinal_def days_before_year_Suc
            days_before_month_simps days_in_month_def)
    qed
  qed
qed

lemma valid_add_one_day:
  assumes "valid_date t" "year t < MAXYEAR"
  shows "valid_date (add_one_day t)"
  using assms
  by (auto simp: add_one_day_def valid_date_def valid_ymd_def days_in_month_def MAXYEAR_def MINYEAR_def)

section \<open>Properties of the date engine\<close>

text \<open>The two ways \<^verbatim>\<open>days_until_birthday\<close> returns a number, in days of the year.\<close>

lemma days_until_birthday_cases:
  assumes "valid_date t" "days_until_birthday b t = Inr n"
  obtains
    (this_year) "valid_ymd (year t) (month b) (day b)"
      "\<not> pair_lt (month b, day b) (month t, day t)"
      "n = days_before_month (year t) (month b) + day b
             - (days_before_month (year t) (month t) + day t)"
  | (next_year) "valid_ymd (year t) (month b) (day b)"
      "valid_ymd (year t + 1) (month b) (day b)"
      "pair_lt (month b, day b) (month t, day t)"
      "n = (if is_leap (year t) then 366 else 365)
             + (days_before_month (year t + 1) (month b) + day b)
             - (days_before_month (year t) (month t) + day t)"
proof -
  let ?c = "\<lparr>year = year t, month = month b, day = day b\<rparr>"
  let ?c' = "\<lparr>year = year t + 1, month = month b, day = day b\<rparr>"
  have lt: "date_lt ?c t = pair_lt (month b, day b) (month t, day t)"
    by (simp add: date_lt_def pair_lt_def)
  from assms(2) have v: "valid_ymd (year t) (month b) (day b)"
    by (simp add: days_until_birthday_def mk_date_def split: if_splits)
  show thesis
  proof (cases "date_lt ?c t")
    case False
    with assms(2) v have "n = (if ?c = t then 0 else toordinal ?c - toordinal t)"
      by (simp add: days_until_birthday_def mk_date_def days_between_def split: if_splits)
    then have "n = toordinal ?c - toordinal t" by (cases "?c = t") simp_all
    then show thesis using False v lt by (intro this_year) (simp_all add: toordinal_def)
  next
    case True
    with assms(2) v have v': "valid_ymd (year t + 1) (month b) (day b)"
      by (simp add: days_until_birthday_def mk_date_def split: if_splits)
    have "?c' \<noteq> t" by (cases t) auto
    with assms(2) v v' True have "n = toordinal ?c' - toordinal t"
      by (simp add: days_until_birthday_def mk_date_def days_between_def)
    then show thesis using True v v' lt
      by (intro next_year) (simp_all add: toordinal_def days_before_year_Suc)
  qed
qed

text \<open>
  Claim C1, as the code has it. When the candidate that \<^verbatim>\<open>days_until_birthday\<close> ends up
  using is a valid calendar date (the triple of today's year with the birth month and day,
  and also the triple of the following year whenever the first one lies strictly before
  today), the function returns the number the contract describes: 0 when the candidate is
  today, the count of days from today to the candidate otherwise. Nothing is required of
  the order of the birth date and today.
\<close>

theorem days_until_birthday_contract:
  assumes "valid_ymd (year t) (month b) (day b)"
    and "date_lt \<lparr>year = year t, month = month b, day = day b\<rparr> t \<longrightarrow>
         valid_ymd (year t + 1) (month b) (day b)"
  shows "days_until_birthday b t = Inr (days_until_contract b t)"
proof (cases "date_lt \<lparr>year = year t, month = month b, day = day b\<rparr> t")
  case True
  with assms show ?thesis
    by (simp add: days_until_birthday_def days_until_contract_def mk_date_def days_between_def)
next
  case False
  with assms(1) show ?thesis
    by (simp add: days_until_birthday_def days_until_contract_def mk_date_def days_between_def)
qed

text \<open>
  An instance: born on 10 May, seen from 1 June 2024, the next birthday is 343 days away.
\<close>

theorem days_until_birthday_contract_witness:
  "days_until_birthday \<lparr>year = 2000, month = 5, day = 10\<rparr> \<lparr>year = 2024, month = 6, day = 1\<rparr>
     = Inr 343
   \<and> days_until_contract \<lparr>year = 2000, month = 5, day = 10\<rparr> \<lparr>year = 2024, month = 6, day = 1\<rparr>
     = 343"
proof -
  let ?b = "\<lparr>year = 2000, month = 5, day = 10\<rparr>"
  let ?t = "\<lparr>year = 2024, month = 6, day = 1\<rparr>"
  have c: "days_until_contract ?b ?t = 343"
    by (simp add: days_until_contract_def date_lt_def toordinal_def days_before_year_def
        days_before_month_simps is_leap_def)
  have "days_until_birthday ?b ?t = Inr (days_until_contract ?b ?t)"
    by (rule days_until_birthday_contract)
      (simp_all add: valid_ymd_def days_in_month_def is_leap_def MINYEAR_def MAXYEAR_def
        date_lt_def)
  with c show ?thesis by simp
qed

text \<open>
  Claim C1 as it is stated asks only for the first candidate to be valid. For a birth date
  of 29 February 2020 and today 1 March 2024 the first candidate, 29 February 2024, is a
  valid date before today; the constructor is then called for 29 February 2025 and
  raises, so no number is returned.
\<close>

theorem days_until_birthday_contract_counterexample:
  "valid_date \<lparr>year = 2020, month = 2, day = 29\<rparr>
   \<and> valid_date \<lparr>year = 2024, month = 3, day = 1\<rparr>
   \<and> date_le \<lparr>year = 2020, month = 2, day = 29\<rparr> \<lparr>year = 2024, month = 3, day = 1\<rparr>
   \<and> valid_ymd 2024 2 29
   \<and> days_until_birthday \<lparr>year = 2020, month = 2, day = 29\<rparr> \<lparr>year = 2024, month = 3, day = 1\<rparr>
       = Inl ValueError
   \<and> days_until_birthday \<lparr>year = 2020, month = 2, day = 29\<rparr> \<lparr>year = 2024, month = 3, day = 1\<rparr>
       \<noteq> Inr (days_until_contract \<lparr>year = 2020, month = 2, day = 29\<rparr>
                 \<lparr>year = 2024, month = 3, day = 1\<rparr>)"
  by (simp add: valid_date_def valid_ymd_def days_in_month_def is_leap_def MINYEAR_def
      MAXYEAR_def date_le_def date_lt_def days_until_birthday_def mk_date_def)

text \<open>
  Claim C2. For a birth date \<open>b\<close> and a reference date \<open>t\<close> not before \<open>b\<close>,
  \<^verbatim>\<open>calculate_age\<close> is the difference of the years, less one exactly when the pair
  (month, day) of \<open>t\<close> is lexicographically below that of \<open>b\<close>; and it is not negative.
\<close>

theorem calculate_age_contract:
  assumes "date_le b t"
  shows "calculate_age b t =
           year t - year b
             - (if month t < month b \<or> (month t = month b \<and> day t < day b) then 1 else 0)
         \<and> 0 \<le> calculate_age b t"
  using assms
  by (auto simp: calculate_age_def pair_lt_def date_le_def date_lt_def Let_def)

theorem calculate_age_contract_witness:
  "date_le \<lparr>year = 1990, month = 3, day = 15\<rparr> \<lparr>year = 2024, month = 3, day = 14\<rparr>
   \<and> calculate_age \<lparr>year = 1990, month = 3, day = 15\<rparr> \<lparr>year = 2024, month = 3, day = 14\<rparr>
       = 2024 - 1990 - 1
   \<and> 0 \<le> calculate_age \<lparr>year = 1990, month = 3, day = 15\<rparr> \<lparr>year = 2024, month = 3, day = 14\<rparr>"
proof -
  have h: "date_le \<lparr>year = 1990, month = 3, day = 15\<rparr> \<lparr>year = 2024, month = 3, day = 14\<rparr>"
    by (simp add: date_le_def date_lt_def)
  from calculate_age_contract [OF h] h show ?thesis by simp
qed

text \<open>
  Claim C5. Whenever \<^verbatim>\<open>days_until_birthday\<close> returns a number for a reference date
  \<open>t\<close>, the number lies between 0 and 366, and between 0 and 365 when the birthday is not
  the 29th of February.
\<close>

theorem days_until_birthday_range:
  assumes "valid_date t" "days_until_birthday b t = Inr n"
  shows "0 \<le> n \<and> n \<le> 366 \<and> (\<not> (month b = 2 \<and> day b = 29) \<longrightarrow> n \<le> 365)"
proof -
  have t: "valid_ymd (year t) (month t) (day t)"
    using assms(1) by (simp add: valid_date_def)
  note tb = day_of_year_bounds [OF t]
  from assms have "0 \<le> n \<and> n \<le> 365"
  proof (cases rule: days_until_birthday_cases)
    case this_year
    note bb = day_of_year_bounds [OF this_year(1)]
    have "month b = month t \<and> day b = day t \<or> pair_lt (month t, day t) (month b, day b)"
      using this_year(2) by (auto simp: pair_lt_def)
    then have "0 \<le> n"
    proof
      assume "month b = month t \<and> day b = day t"
      then show ?thesis using this_year(3) by simp
    next
      assume "pair_lt (month t, day t) (month b, day b)"
      from day_of_year_less [OF t this_year(1) this] show ?thesis
        using this_year(3) by simp
    qed
    moreover have "n \<le> 365" using bb tb this_year(3) by (simp split: if_splits)
    ultimately show ?thesis by simp
  next
    case next_year
    note bb = day_of_year_bounds [OF next_year(2)]
    have m: "1 \<le> month b" "month b \<le> 12"
      using next_year(1) by (simp_all add: valid_ymd_def)
    note lt = day_of_year_less [OF next_year(1) t next_year(3)]
    have "0 \<le> n" using bb tb next_year(4) by (simp split: if_splits)
    moreover have "n \<le> 365"
      using lt next_year(4) not_leap_consecutive [of "year t"]
      by (simp add: days_before_month_next_year [OF m] split: if_splits)
    ultimately show ?thesis by simp
  qed
  then show ?thesis by simp
qed

text \<open>An instance: the day after the birthday, 364 days remain.\<close>

theorem days_until_birthday_range_witness:
  "valid_date \<lparr>year = 2024, month = 3, day = 16\<rparr>
   \<and> days_until_birthday \<lparr>year = 1990, month = 3, day = 15\<rparr> \<lparr>year = 2024, month = 3, day = 16\<rparr>
       = Inr 364
   \<and> (0::int) \<le> 364 \<and> (364::int) \<le> 365"
proof -
  have v: "valid_date \<lparr>year = 2024, month = 3, day = 16\<rparr>"
    by (simp add: valid_date_def valid_ymd_def days_in_month_def MINYEAR_def MAXYEAR_def)
  have d: "days_until_birthday \<lparr>year = 1990, month = 3, day = 15\<rparr>
      \<lparr>year = 2024, month = 3, day = 16\<rparr> = Inr 364"
    by code_simp
  from days_until_birthday_range [OF v d] v d show ?thesis by simp
qed

text \<open>
  Claim C6. Whenever \<^verbatim>\<open>days_until_birthday\<close> returns a number, that number is 0 if and
  only if the reference date has the month and the day of the birth date.
\<close>

theorem days_until_birthday_zero_iff:
  assumes "valid_date t" "days_until_birthday b t = Inr n"
  shows "n = 0 \<longleftrightarrow> month t = month b \<and> day t = day b"
proof -
  have t: "valid_ymd (year t) (month t) (day t)"
    using assms(1) by (simp add: valid_date_def)
  from assms show ?thesis
  proof (cases rule: days_until_birthday_cases)
    case this_year
    show ?thesis
    proof (cases "month t = month b \<and> day t = day b")
      case True
      then show ?thesis using this_year(3) by simp
    next
      case False
      then have "pair_lt (month t, day t) (month b, day b)"
        using this_year(2) by (auto simp: pair_lt_def)
      from day_of_year_less [OF t this_year(1) this] False show ?thesis
        using this_year(3) by simp
    qed
  next
    case next_year
    have "1 \<le> days_before_month (year t + 1) (month b) + day b"
      by (rule day_of_year_bounds [OF next_year(2)])
    moreover note day_of_year_bounds(2) [OF t]
    ultimately have "0 < n" using next_year(4) by (simp split: if_splits)
    moreover have "\<not> (month t = month b \<and> day t = day b)"
      using next_year(3) by (auto simp: pair_lt_def)
    ultimately show ?thesis by simp
  qed
qed

text \<open>An instance: a leap-day birthday seen from 29 February 2024.\<close>

theorem days_until_birthday_zero_iff_witness:
  "valid_date \<lparr>year = 2024, month = 2, day = 29\<rparr>
   \<and> days_until_birthday \<lparr>year = 2000, month = 2, day = 29\<rparr> \<lparr>year = 2024, month = 2, day = 29\<rparr>
       = Inr 0
   \<and> month \<lparr>year = 2024, month = 2, day = 29\<rparr> = month \<lparr>year = 2000, month = 2, day = 29\<rparr>
   \<and> day \<lparr>year = 2024, month = 2, day = 29\<rparr> = day \<lparr>year = 2000, month = 2, day = 29\<rparr>"
proof -
  have v: "valid_date \<lparr>year = 2024, month = 2, day = 29\<rparr>"
    by code_simp
  have "\<exists>n. days_until_birthday \<lparr>year = 2000, month = 2, day = 29\<rparr>
      \<lparr>year = 2024, month = 2, day = 29\<rparr> = Inr n"
    by (simp add: days_until_birthday_def mk_date_def valid_ymd_def days_in_month_def
        is_leap_def MINYEAR_def MAXYEAR_def date_lt_def)
  then obtain n where d: "days_until_birthday \<lparr>year = 2000, month = 2, day = 29\<rparr>
      \<lparr>year = 2024, month = 2, day = 29\<rparr> = Inr n" ..
  from days_until_birthday_zero_iff [OF v d] have "n = 0" by simp
  with d v show ?thesis by simp
qed

text \<open>
  Claim C8. Scenarios A and B of the specification: born on 15 March 1990, the age is 33
  and the birthday one day away on 14 March 2024, and the age is 34 and the birthday
  today on 15 March 2024.
\<close>

theorem scenarios_A_B:
  "calculate_age \<lparr>year = 1990, month = 3, day = 15\<rparr> \<lparr>year = 2024, month = 3, day = 14\<rparr> = 33
   \<and> days_until_birthday \<lparr>year = 1990, month = 3, day = 15\<rparr> \<lparr>year = 2024, month = 3, day = 14\<rparr>
       = Inr 1
   \<and> calculate_age \<lparr>year = 1990, month = 3, day = 15\<rparr> \<lparr>year = 2024, month = 3, day = 15\<rparr> = 34
   \<and> days_until_birthday \<lparr>year = 1990, month = 3, day = 15\<rparr> \<lparr>year = 2024, month = 3, day = 15\<rparr>
       = Inr 0"
  by (simp add: calculate_age_def pair_lt_def days_until_birthday_def mk_date_def valid_ymd_def
      days_in_month_def MINYEAR_def MAXYEAR_def date_lt_def days_between_def toordinal_def
      days_before_month_simps)

text \<open>The calendar successor is the only valid date one day later.\<close>

lemma add_one_day_valid_or_last:
  assumes "valid_date t"
  shows "valid_date (add_one_day t) \<or> (year t = MAXYEAR \<and> month t = 12 \<and> day t = 31)"
proof (cases "year t < MAXYEAR")
  case True
  then show ?thesis using assms by (simp add: valid_add_one_day)
next
  case False
  then have "year t = MAXYEAR" using assms by (simp add: valid_date_def valid_ymd_def)
  then show ?thesis using assms
    by (auto simp: add_one_day_def valid_date_def valid_ymd_def days_in_month_def MINYEAR_def
        MAXYEAR_def)
qed

lemma next_day_unique:
  assumes "valid_date t" "valid_date n" "toordinal n = toordinal t + 1"
  shows "n = add_one_day t"
  using add_one_day_valid_or_last [OF assms(1)]
proof
  assume "valid_date (add_one_day t)"
  then show ?thesis
    using assms toordinal_add_one_day [OF assms(1)] by (intro toordinal_inj) simp_all
next
  assume last: "year t = MAXYEAR \<and> month t = 12 \<and> day t = 31"
  have "date_lt t n"
    using date_trichotomy [of t n] toordinal_less [OF assms(2,1)] assms(3) by auto
  with last assms(2) have False
    by (auto simp: date_lt_def valid_date_def valid_ymd_def days_in_month_def)
  then show ?thesis ..
qed

text \<open>
  Claim C10. When the birthday is one day away, the age the reminder announces,
  \<^verbatim>\<open>calculate_age\<close> of today plus one, is \<^verbatim>\<open>calculate_age\<close> of tomorrow: the age
  the person turns on the birthday.
\<close>

theorem announced_age_is_next_age:
  assumes "valid_date t" "days_until_birthday b t = Inr 1"
  shows "calculate_age b t + 1 = calculate_age b (add_one_day t)"
  using assms
proof (cases rule: days_until_birthday_cases)
  case this_year
  let ?c = "\<lparr>year = year t, month = month b, day = day b\<rparr>"
  have "valid_date ?c" using this_year(1) by (simp add: valid_date_def)
  moreover have "toordinal ?c = toordinal t + 1"
    using this_year(3) by (simp add: toordinal_def)
  ultimately have "?c = add_one_day t" using assms(1) by (intro next_day_unique)
  then have s: "year (add_one_day t) = year t" "month (add_one_day t) = month b"
    "day (add_one_day t) = day b"
    by (metis date.select_convs(1), metis date.select_convs(2), metis date.select_convs(3))
  have "\<not> (month b = month t \<and> day b = day t)" using this_year(3) by auto
  with this_year(2) have "pair_lt (month t, day t) (month b, day b)"
    by (auto simp: pair_lt_def)
  then show ?thesis by (simp add: calculate_age_def s) (simp add: pair_lt_def)
next
  case next_year
  let ?c = "\<lparr>year = year t + 1, month = month b, day = day b\<rparr>"
  have "valid_date ?c" using next_year(2) by (simp add: valid_date_def)
  moreover have "toordinal ?c = toordinal t + 1"
    using next_year(4) by (simp add: toordinal_def days_before_year_Suc)
  ultimately have "?c = add_one_day t" using assms(1) by (intro next_day_unique)
  then have s: "year (add_one_day t) = year t + 1" "month (add_one_day t) = month b"
    "day (add_one_day t) = day b"
    by (metis date.select_convs(1), metis date.select_convs(2), metis date.select_convs(3))
  have "\<not> pair_lt (month t, day t) (month b, day b)"
    using next_year(3) by (auto simp: pair_lt_def)
  then show ?thesis by (simp add: calculate_age_def s) (simp add: pair_lt_def)
qed

text \<open>An instance across the end of a year: born on 1 January, seen from 31 December.\<close>

theorem announced_age_is_next_age_witness:
  "valid_date \<lparr>year = 2023, month = 12, day = 31\<rparr>
   \<and> days_until_birthday \<lparr>year = 1990, month = 1, day = 1\<rparr> \<lparr>year = 2023, month = 12, day = 31\<rparr>
       = Inr 1
   \<and> add_one_day \<lparr>year = 2023, month = 12, day = 31\<rparr> = \<lparr>year = 2024, month = 1, day = 1\<rparr>
   \<and> calculate_age \<lparr>year = 1990, month = 1, day = 1\<rparr> \<lparr>year = 2023, month = 12, day = 31\<rparr> + 1
       = calculate_age \<lparr>year = 1990, month = 1, day = 1\<rparr>
           (add_one_day \<lparr>year = 2023, month = 12, day = 31\<rparr>)"
proof -
  let ?b = "\<lparr>year = 1990, month = 1, day = 1\<rparr>"
  let ?t = "\<lparr>year = 2023, month = 12, day = 31\<rparr>"
  have v: "valid_date ?t"
    by (simp add: valid_date_def valid_ymd_def days_in_month_def MINYEAR_def MAXYEAR_def)
  have d: "days_until_birthday ?b ?t = Inr 1"
    by (simp add: days_until_birthday_def mk_date_def valid_ymd_def days_in_month_def
        MINYEAR_def MAXYEAR_def date_lt_def days_between_def toordinal_def
        days_before_month_simps days_before_year_def is_leap_def)
  have a: "add_one_day ?t = \<lparr>year = 2024, month = 1, day = 1\<rparr>"
    by (simp add: add_one_day_def days_in_month_def)
  from announced_age_is_next_age [OF v d] v d a show ?thesis by simp
qed

section \<open>Properties of the reminder scheduler\<close>

text \<open>
  The grouping keeps every person, once, under the key of the person's owner, and its keys
  are distinct.
\<close>

lemma append_person_keys:
  "map fst (append_person p d) =
     (if user_id p \<in> set (map fst d) then map fst d else map fst d @ [user_id p])"
proof (induction d)
  case Nil
  show ?case by simp
next
  case (Cons g d)
  obtain k ps where g: "g = (k, ps)" by (cases g)
  show ?case using Cons.IH by (cases "user_id p \<in> set (map fst d)") (simp_all add: g)
qed

lemma append_person_distinct:
  "distinct (map fst d) \<Longrightarrow> distinct (map fst (append_person p d))"
  by (simp add: append_person_keys)

lemma append_person_mset:
  "mset (concat (map snd (append_person p d))) = mset (concat (map snd d)) + {#p#}"
  by (induction d) auto

lemma keyed_simps:
  "keyed []"
  "keyed ((k, ps) # d) \<longleftrightarrow> (\<forall>p \<in> set ps. user_id p = k) \<and> keyed d"
  by (simp_all add: keyed_def)

lemma append_person_keyed: "keyed d \<Longrightarrow> keyed (append_person p d)"
  by (induction p d rule: append_person.induct) (simp_all add: keyed_simps)

lemma foldl_append_person:
  assumes "distinct (map fst d)" "keyed d"
  shows "distinct (map fst (foldl (\<lambda>d p. append_person p d) d people))
    \<and> keyed (foldl (\<lambda>d p. append_person p d) d people)
    \<and> mset (concat (map snd (foldl (\<lambda>d p. append_person p d) d people)))
        = mset (concat (map snd d)) + mset people"
  using assms
proof (induction people arbitrary: d)
  case Nil
  then show ?case by simp
next
  case (Cons p people)
  from Cons.IH [OF append_person_distinct [OF Cons.prems(1)] append_person_keyed [OF Cons.prems(2)], of p]
  show ?case by (simp add: append_person_mset)
qed

lemma group_by_user_props:
  "distinct (map fst (group_by_user people))"
  "keyed (group_by_user people)"
  "mset (concat (map snd (group_by_user people))) = mset people"
  using foldl_append_person [of "[]" people]
  by (simp_all add: group_by_user_def keyed_def)

lemma keyed_filter:
  "keyed d \<Longrightarrow>
   concat (map snd (filter (\<lambda>g. fst g \<in> A) d)) = filter (\<lambda>p. user_id p \<in> A) (concat (map snd d))"
proof (induction d)
  case Nil
  then show ?case by simp
next
  case (Cons g d)
  obtain k ps where g: "g = (k, ps)" by (cases g)
  from Cons.prems have k: "\<forall>p \<in> set ps. user_id p = k" and d: "keyed d"
    by (auto simp: keyed_def g)
  from k have "filter (\<lambda>p. user_id p \<in> A) ps = (if k \<in> A then ps else [])"
    by (induction ps) auto
  with Cons.IH [OF d] show ?case by (simp add: g)
qed

lemma keyed_users:
  assumes "keyed gs"
  shows "concat (map (\<lambda>g. map (\<lambda>p. fst g) (snd g)) (filter (\<lambda>g. fst g \<in> A) gs))
       = map user_id (concat (map snd (filter (\<lambda>g. fst g \<in> A) gs)))"
  using assms
proof (induction gs)
  case Nil
  show ?case by simp
next
  case (Cons g gs)
  obtain k ps where g: "g = (k, ps)" by (cases g)
  from Cons.prems have k: "\<forall>p \<in> set ps. user_id p = k" and d: "keyed gs"
    by (simp_all add: g keyed_simps)
  from k have "map (\<lambda>p. k) ps = map user_id ps" by (induction ps) auto
  with Cons.IH [OF d] show ?case by (simp add: g)
qed

text \<open>
  What the two loops do to the log and to the reachability set: the attempts they add, in
  order, and the set less the recipients of the failed ones.
\<close>

lemma failed_users_simps:
  "failed_users [] = {}"
  "failed_users (as @ bs) = failed_users as \<union> failed_users bs"
  "failed_users [a] = (if attempt_ok a then {} else {attempt_user a})"
  by (auto simp: failed_users_def)

lemma send_group_result:
  "\<exists>new. send_group failing u ps (log, act) = (log @ new, act - failed_users new)
     \<and> map attempt_user new = map (\<lambda>p. u) ps
     \<and> map attempt_person new = ps
     \<and> map announced_age new = map (\<lambda>p. age p + 1) ps
     \<and> map attempt_ok new = map (\<lambda>i. i \<notin> failing) [length log ..< length log + length ps]"
proof (induction ps arbitrary: log act)
  case Nil
  show ?case by (simp add: failed_users_simps)
next
  case (Cons p ps)
  let ?a = "\<lparr>attempt_user = u, attempt_person = p, announced_age = age p + 1,
             attempt_ok = length log \<notin> failing\<rparr>"
  let ?act = "if length log \<in> failing then act - {u} else act"
  have step: "send_group failing u (p # ps) (log, act) = send_group failing u ps (log @ [?a], ?act)"
    by simp
  from Cons.IH [of "log @ [?a]" ?act] obtain new where
    new: "send_group failing u ps (log @ [?a], ?act) = ((log @ [?a]) @ new, ?act - failed_users new)"
      "map attempt_user new = map (\<lambda>p. u) ps" "map attempt_person new = ps"
      "map announced_age new = map (\<lambda>p. age p + 1) ps"
      "map attempt_ok new = map (\<lambda>i. i \<notin> failing) [length (log @ [?a]) ..< length (log @ [?a]) + length ps]"
    by blast
  have act: "?act - failed_users new = act - failed_users (?a # new)"
    using failed_users_simps(2) [of "[?a]" new] by (auto simp: failed_users_simps)
  have idx: "[length log ..< length log + length (p # ps)] =
      length log # [length (log @ [?a]) ..< length (log @ [?a]) + length ps]"
    using upt_conv_Cons [of "length log" "length log + length (p # ps)"] by simp
  show ?case
    apply (rule exI [of _ "?a # new"])
    unfolding step new(1) act idx
    using new(2-5) by simp
qed

lemma send_group_users:
  assumes "map attempt_user new = map (\<lambda>p. u) ps"
  shows "failed_users new \<subseteq> {u}" "\<forall>a \<in> set new. attempt_user a = u"
proof -
  from assms have "set (map attempt_user new) \<subseteq> {u}" by auto
  then show "\<forall>a \<in> set new. attempt_user a = u" by auto
  then show "failed_users new \<subseteq> {u}" by (auto simp: failed_users_def)
qed

lemma filter_groups_cong:
  assumes "u \<notin> fst ` set gs" "A' = A \<or> A' = A - {u}"
  shows "filter (\<lambda>g. fst g \<in> A') gs = filter (\<lambda>g. fst g \<in> A) gs"
  using assms by (intro filter_cong) auto

lemma send_all_result:
  assumes "distinct (map fst gs)"
  shows "\<exists>new. send_all failing gs (log, act) = (log @ new, act - failed_users new)
     \<and> map attempt_person new = concat (map snd (filter (\<lambda>g. fst g \<in> act) gs))
     \<and> map attempt_user new
         = concat (map (\<lambda>g. map (\<lambda>p. fst g) (snd g)) (filter (\<lambda>g. fst g \<in> act) gs))
     \<and> map announced_age new = map (\<lambda>p. age p + 1) (map attempt_person new)"
  using assms
proof (induction gs arbitrary: log act)
  case Nil
  show ?case by (simp add: failed_users_simps)
next
  case (Cons g gs)
  obtain u ps where g: "g = (u, ps)" by (cases g)
  from Cons.prems have u: "u \<notin> fst ` set gs" and d: "distinct (map fst gs)"
    by (simp_all add: g)
  show ?case
  proof (cases "u \<in> act")
    case False
    from Cons.IH [OF d, of log act] obtain new where
      "send_all failing gs (log, act) = (log @ new, act - failed_users new)"
      "map attempt_person new = concat (map snd (filter (\<lambda>g. fst g \<in> act) gs))"
      "map attempt_user new
         = concat (map (\<lambda>g. map (\<lambda>p. fst g) (snd g)) (filter (\<lambda>g. fst g \<in> act) gs))"
      "map announced_age new = map (\<lambda>p. age p + 1) (map attempt_person new)"
      by blast
    with False show ?thesis by (intro exI [of _ new]) (simp add: g)
  next
    case True
    from send_group_result [of failing u ps log act] obtain new1 where
      n1: "send_group failing u ps (log, act) = (log @ new1, act - failed_users new1)"
        "map attempt_user new1 = map (\<lambda>p. u) ps" "map attempt_person new1 = ps"
        "map announced_age new1 = map (\<lambda>p. age p + 1) ps"
      by blast
    let ?act = "act - failed_users new1"
    from send_group_users(1) [OF n1(2)] have "?act = act \<or> ?act = act - {u}" by auto
    note f = filter_groups_cong [OF u this]
    from Cons.IH [OF d, of "log @ new1" ?act] obtain new2 where
      n2: "send_all failing gs (log @ new1, ?act) = ((log @ new1) @ new2, ?act - failed_users new2)"
        "map attempt_person new2 = concat (map snd (filter (\<lambda>g. fst g \<in> ?act) gs))"
        "map attempt_user new2
           = concat (map (\<lambda>g. map (\<lambda>p. fst g) (snd g)) (filter (\<lambda>g. fst g \<in> ?act) gs))"
        "map announced_age new2 = map (\<lambda>p. age p + 1) (map attempt_person new2)"
      by blast
    have "send_all failing (g # gs) (log, act) = (log @ (new1 @ new2), act - failed_users (new1 @ new2))"
      using True n1(1) n2(1) by (auto simp: g failed_users_simps)
    moreover have "map attempt_person (new1 @ new2)
        = concat (map snd (filter (\<lambda>g. fst g \<in> act) (g # gs)))"
      using True n1(3) n2(2) [unfolded f] by (simp add: g)
    moreover have "map attempt_user (new1 @ new2)
        = concat (map (\<lambda>g. map (\<lambda>p. fst g) (snd g)) (filter (\<lambda>g. fst g \<in> act) (g # gs)))"
      using True n1(2) n2(3) [unfolded f] by (simp add: g)
    moreover have "map announced_age (new1 @ new2)
        = map (\<lambda>p. age p + 1) (map attempt_person (new1 @ new2))"
      using n1(3,4) n2(4) by simp
    ultimately show ?thesis by blast
  qed
qed

lemma tick_result:
  assumes "get_people_with_birthday_in_days rows today 1 = Inr people"
  shows "\<exists>new. send_birthday_reminders_tick rows today failing act
           = \<lparr>attempts = new, active_after = act - failed_users new, sleep_seconds = 3600\<rparr>
     \<and> map attempt_person new
         = filter (\<lambda>p. user_id p \<in> act) (concat (map snd (group_by_user people)))
     \<and> map attempt_user new = map user_id (map attempt_person new)
     \<and> map announced_age new = map (\<lambda>p. age p + 1) (map attempt_person new)"
proof -
  let ?gs = "group_by_user people"
  from send_all_result [OF group_by_user_props(1), of failing people "[]" act] obtain new where
    new: "send_all failing ?gs ([], act) = ([] @ new, act - failed_users new)"
      "map attempt_person new = concat (map snd (filter (\<lambda>g. fst g \<in> act) ?gs))"
      "map attempt_user new
         = concat (map (\<lambda>g. map (\<lambda>p. fst g) (snd g)) (filter (\<lambda>g. fst g \<in> act) ?gs))"
      "map announced_age new = map (\<lambda>p. age p + 1) (map attempt_person new)"
    by blast
  have "people = [] \<Longrightarrow> send_all failing ?gs ([], act) = ([], act)"
    by (simp add: group_by_user_def)
  then have "(if people \<noteq> [] then send_all failing ?gs ([], act) else ([], act))
      = (new, act - failed_users new)"
    using new(1) by auto
  then have "send_birthday_reminders_tick rows today failing act
      = \<lparr>attempts = new, active_after = act - failed_users new, sleep_seconds = 3600\<rparr>"
    using assms by (simp add: send_birthday_reminders_tick_def)
  moreover have "map attempt_person new = filter (\<lambda>p. user_id p \<in> act) (concat (map snd ?gs))"
    using new(2) keyed_filter [OF group_by_user_props(2)] by simp
  moreover have "map attempt_user new = map user_id (map attempt_person new)"
    using new(2,3) keyed_users [OF group_by_user_props(2), where A = act] by simp
  ultimately show ?thesis using new(4) by blast
qed





text \<open>
  Claim C7, as the code has it. In a tick whose listing of the people returns, the persons
  of the attempts
  are, each as often as listed, exactly the listed persons that have \<open>days_until = 1\<close>
  and whose owner is in the reachability set at the start of the tick, one attempt for
  one person; every attempt goes to the owner of its person; and an owner of the set
  all of whose deliveries succeed is still in the set after the tick.
\<close>

theorem tick_attempts_reachable_owners:
  assumes "get_all_people rows today None = Inr everyone"
  shows "mset (map attempt_person (attempts (send_birthday_reminders_tick rows today failing act)))
           = mset (filter (\<lambda>p. days_until p = 1 \<and> user_id p \<in> act) everyone)
     \<and> (\<forall>a \<in> set (attempts (send_birthday_reminders_tick rows today failing act)).
           attempt_user a = user_id (attempt_person a))
     \<and> (\<forall>u \<in> act.
           (\<forall>a \<in> set (attempts (send_birthday_reminders_tick rows today failing act)).
              attempt_user a = u \<longrightarrow> attempt_ok a)
           \<longrightarrow> u \<in> active_after (send_birthday_reminders_tick rows today failing act))"
proof -
  let ?people = "filter (\<lambda>p. days_until p = 1) everyone"
  have "get_people_with_birthday_in_days rows today 1 = Inr ?people"
    using assms by (simp add: get_people_with_birthday_in_days_def)
  from tick_result [OF this, of failing act] obtain new where
    new: "send_birthday_reminders_tick rows today failing act
           = \<lparr>attempts = new, active_after = act - failed_users new, sleep_seconds = 3600\<rparr>"
      "map attempt_person new
         = filter (\<lambda>p. user_id p \<in> act) (concat (map snd (group_by_user ?people)))"
      "map attempt_user new = map user_id (map attempt_person new)"
    by blast
  have "mset (map attempt_person new) = filter_mset (\<lambda>p. user_id p \<in> act) (mset ?people)"
    unfolding new(2) mset_filter group_by_user_props(3) ..
  also have "\<dots> = mset (filter (\<lambda>p. user_id p \<in> act) ?people)"
    by (simp only: mset_filter)
  also have "filter (\<lambda>p. user_id p \<in> act) ?people
      = filter (\<lambda>p. days_until p = 1 \<and> user_id p \<in> act) everyone"
    by (simp add: conj_commute)
  finally have a: "mset (map attempt_person new)
      = mset (filter (\<lambda>p. days_until p = 1 \<and> user_id p \<in> act) everyone)" .
  have b: "\<forall>a \<in> set new. attempt_user a = user_id (attempt_person a)"
    using new(3) by simp
  have c: "\<forall>u \<in> act. (\<forall>a \<in> set new. attempt_user a = u \<longrightarrow> attempt_ok a)
      \<longrightarrow> u \<in> act - failed_users new"
    by (auto simp: failed_users_def)
  show ?thesis unfolding new(1) using a b c by simp
qed

text \<open>
  Scenario D with bystanders: the owner 7 is reachable and the owner 8 is not. The one
  attempt is about Ann, it succeeds, and the owner 7 stays reachable.
\<close>

theorem tick_attempts_reachable_owners_witness:
  "get_all_people rows_D march_14 None =
     Inr [\<lparr>person_id = 3, person_name = ''Ann'',
            birthday_date = \<lparr>year = 1990, month = 3, day = 15\<rparr>,
            user_id = 7, age = 33, days_until = 1\<rparr>,
          \<lparr>person_id = 2, person_name = ''Carl'',
            birthday_date = \<lparr>year = 1970, month = 3, day = 15\<rparr>,
            user_id = 8, age = 53, days_until = 1\<rparr>,
          \<lparr>person_id = 1, person_name = ''Dora'',
            birthday_date = \<lparr>year = 2001, month = 7, day = 1\<rparr>,
            user_id = 7, age = 22, days_until = 109\<rparr>]
   \<and> mset (map attempt_person (attempts (send_birthday_reminders_tick rows_D march_14 {} {7})))
       = {#\<lparr>person_id = 3, person_name = ''Ann'',
            birthday_date = \<lparr>year = 1990, month = 3, day = 15\<rparr>,
            user_id = 7, age = 33, days_until = 1\<rparr>#}
   \<and> map attempt_ok (attempts (send_birthday_reminders_tick rows_D march_14 {} {7})) = [True]
   \<and> 7 \<in> active_after (send_birthday_reminders_tick rows_D march_14 {} {7})"
proof -
  have g: "get_all_people rows_D march_14 None =
     Inr [\<lparr>person_id = 3, person_name = ''Ann'',
            birthday_date = \<lparr>year = 1990, month = 3, day = 15\<rparr>,
            user_id = 7, age = 33, days_until = 1\<rparr>,
          \<lparr>person_id = 2, person_name = ''Carl'',
            birthday_date = \<lparr>year = 1970, month = 3, day = 15\<rparr>,
            user_id = 8, age = 53, days_until = 1\<rparr>,
          \<lparr>person_id = 1, person_name = ''Dora'',
            birthday_date = \<lparr>year = 2001, month = 7, day = 1\<rparr>,
            user_id = 7, age = 22, days_until = 109\<rparr>]"
    by code_simp
  have ok: "map attempt_ok (attempts (send_birthday_reminders_tick rows_D march_14 {} {7})) = [True]"
    by code_simp
  have "list_all attempt_ok (attempts (send_birthday_reminders_tick rows_D march_14 {} {7}))"
    by code_simp
  then have all_ok: "\<forall>a \<in> set (attempts (send_birthday_reminders_tick rows_D march_14 {} {7})).
      attempt_user a = 7 \<longrightarrow> attempt_ok a"
    by (simp add: list_all_iff)
  note th = tick_attempts_reachable_owners [OF g, of "{}" "{7}"]
  have m: "mset (map attempt_person (attempts (send_birthday_reminders_tick rows_D march_14 {} {7})))
       = {#\<lparr>person_id = 3, person_name = ''Ann'',
            birthday_date = \<lparr>year = 1990, month = 3, day = 15\<rparr>,
            user_id = 7, age = 33, days_until = 1\<rparr>#}"
    using th [THEN conjunct1] by simp
  have "7 \<in> {7::int}" by simp
  from th [THEN conjunct2, THEN conjunct2, THEN bspec, OF this, THEN mp, OF all_ok]
  have r: "7 \<in> active_after (send_birthday_reminders_tick rows_D march_14 {} {7})" .
  show ?thesis by (rule conjI [OF g conjI [OF m conjI [OF ok r]]])
qed

text \<open>
  Claim C7 as it is stated speaks of every tick. On 1 June 2023, with the owner 7
  reachable, Ann of the owner 7 has her birthday one day away, but the listing raises on
  the leap-day row of another owner; the tick attempts nothing and sleeps a minute.
\<close>

theorem tick_attempts_reachable_owners_counterexample:
  "days_until_birthday \<lparr>year = 1990, month = 6, day = 2\<rparr> june_1 = Inr 1
   \<and> get_all_people rows_F june_1 None = Inl ValueError
   \<and> attempts (send_birthday_reminders_tick rows_F june_1 {} {7}) = []
   \<and> active_after (send_birthday_reminders_tick rows_F june_1 {} {7}) = {7}
   \<and> sleep_seconds (send_birthday_reminders_tick rows_F june_1 {} {7}) = 60"
  by code_simp

section \<open>Properties of the listing\<close>

text \<open>The persons of a listing carry the fields of the rows, in the order of the rows.\<close>

lemma derive_people_fields:
  assumes "derive_people today rs = Inr ps"
  shows "map person_id ps = map row_id rs
    \<and> map person_name ps = map row_name rs
    \<and> map user_id ps = map row_user_id rs
    \<and> map birthday_date ps = map row_birthday_date rs"
  using assms
proof (induction rs arbitrary: ps)
  case Nil
  then show ?case by simp
next
  case (Cons r rs)
  from Cons.prems obtain p ps' where
    p: "derive_person today r = Inr p" and ps': "derive_people today rs = Inr ps'"
    and ps: "ps = p # ps'"
    by (auto split: sum.splits)
  from p have "person_id p = row_id r \<and> person_name p = row_name r
      \<and> user_id p = row_user_id r \<and> birthday_date p = row_birthday_date r"
    by (auto simp: derive_person_def split: sum.splits)
  with Cons.IH [OF ps'] show ?case by (simp add: ps)
qed

text \<open>
  For an owner other than 0, a listing that returns holds the rows of that owner and of
  no other, ordered by name.
\<close>

lemma get_all_people_scoped:
  assumes "u \<noteq> 0" "get_all_people rows today (Some u) = Inr people"
  shows "mset (map person_id people) = mset (map row_id (filter (\<lambda>r. row_user_id r = u) rows))"
    and "\<forall>p \<in> set people. user_id p = u"
    and "sorted (map person_name people)"
proof -
  let ?sel = "sort_key row_name (filter (\<lambda>r. row_user_id r = u) rows)"
  from assms have "derive_people today ?sel = Inr people"
    by (simp add: get_all_people_def select_rows_def split: if_splits)
  note f = derive_people_fields [OF this]
  have "mset (map row_id ?sel) = image_mset row_id (mset ?sel)" by simp
  then show "mset (map person_id people) = mset (map row_id (filter (\<lambda>r. row_user_id r = u) rows))"
    using f by simp
  have "set (map user_id people) \<subseteq> {u}" using f by auto
  then show "\<forall>p \<in> set people. user_id p = u" by auto
  show "sorted (map person_name people)" using f by simp
qed

text \<open>
  Claim C4 says that for every owner identifier the listing returns the records of that
  owner only. For the owner 0 the test \<^verbatim>\<open>if user_id:\<close> fails as it does for a missing
  argument, and the listing returns the rows of every owner: here the row of the owner 5
  next to the row of the owner 0.
\<close>

theorem get_all_people_owner_zero:
  "get_all_people
     [\<lparr>row_id = 1, row_name = ''Ann'',
       row_birthday_date = \<lparr>year = 1990, month = 3, day = 15\<rparr>, row_user_id = 5\<rparr>,
      \<lparr>row_id = 2, row_name = ''Bob'',
       row_birthday_date = \<lparr>year = 1985, month = 3, day = 15\<rparr>, row_user_id = 0\<rparr>]
     march_14 (Some 0)
   = Inr [\<lparr>person_id = 1, person_name = ''Ann'',
            birthday_date = \<lparr>year = 1990, month = 3, day = 15\<rparr>,
            user_id = 5, age = 33, days_until = 1\<rparr>,
          \<lparr>person_id = 2, person_name = ''Bob'',
            birthday_date = \<lparr>year = 1985, month = 3, day = 15\<rparr>,
            user_id = 0, age = 38, days_until = 1\<rparr>]"
  by code_simp

text \<open>
  A row with a leap-day birth date makes the listing of its owner raise in a year that is
  not a leap year.
\<close>

lemma get_all_people_leap_day_row:
  "get_all_people
     [\<lparr>row_id = 1, row_name = ''Eve'',
       row_birthday_date = \<lparr>year = 2000, month = 2, day = 29\<rparr>, row_user_id = 5\<rparr>]
     \<lparr>year = 2023, month = 6, day = 1\<rparr> (Some 5)
   = Inl ValueError"
  by code_simp

text \<open>An owner identifier other than 0 that does not fit 64 bits makes the listing raise.\<close>

lemma get_all_people_overflow:
  "u \<noteq> 0 \<Longrightarrow> \<not> sqlite_int u \<Longrightarrow> get_all_people rows today (Some u) = Inl OverflowError"
  by (simp add: get_all_people_def select_rows_def)

section \<open>Properties of the date step of the dialog\<close>

text \<open>
  Claim C9. When the text of the message parses to a date strictly after today,
  \<^verbatim>\<open>process_date\<close> answers that the date cannot be in the future and asks for a correct
  one; the table is unchanged, no row is created, and the dialog state and the stored
  name are unchanged, so the user is still asked for the date.
\<close>

theorem process_date_rejects_future:
  assumes "parse text = Inr birthday" "date_lt today birthday"
  shows "snd (process_date parse today uid text st) = FutureDateRetry
    \<and> db (fst (process_date parse today uid text st)) = db st
    \<and> fsm_state (fst (process_date parse today uid text st)) = fsm_state st
    \<and> fsm_data (fst (process_date parse today uid text st)) = fsm_data st"
  using assms by (simp add: process_date_def)

text \<open>An instance: on 14 March 2024 the user 7 enters 1 January 2030 for Ann.\<close>

theorem process_date_rejects_future_witness:
  "snd (process_date
         (\<lambda>s. if s = ''01.01.2030'' then Inr \<lparr>year = 2030, month = 1, day = 1\<rparr> else Inl ValueError)
         march_14 7 ''01.01.2030''
         \<lparr>db = \<lparr>rows_of = [], last_id = 0\<rparr>, active_users = {},
          fsm_state = (\<lambda>u. None)(7 := Some waiting_for_date),
          fsm_data = (\<lambda>u. None)(7 := Some ''Ann'')\<rparr>) = FutureDateRetry
   \<and> rows_of (db (fst (process_date
         (\<lambda>s. if s = ''01.01.2030'' then Inr \<lparr>year = 2030, month = 1, day = 1\<rparr> else Inl ValueError)
         march_14 7 ''01.01.2030''
         \<lparr>db = \<lparr>rows_of = [], last_id = 0\<rparr>, active_users = {},
          fsm_state = (\<lambda>u. None)(7 := Some waiting_for_date),
          fsm_data = (\<lambda>u. None)(7 := Some ''Ann'')\<rparr>))) = []
   \<and> fsm_state (fst (process_date
         (\<lambda>s. if s = ''01.01.2030'' then Inr \<lparr>year = 2030, month = 1, day = 1\<rparr> else Inl ValueError)
         march_14 7 ''01.01.2030''
         \<lparr>db = \<lparr>rows_of = [], last_id = 0\<rparr>, active_users = {},
          fsm_state = (\<lambda>u. None)(7 := Some waiting_for_date),
          fsm_data = (\<lambda>u. None)(7 := Some ''Ann'')\<rparr>)) 7 = Some waiting_for_date"
proof -
  let ?parse = "\<lambda>s. if s = ''01.01.2030'' then Inr \<lparr>year = 2030, month = 1, day = 1\<rparr>
    else Inl ValueError"
  have p: "?parse ''01.01.2030'' = Inr \<lparr>year = 2030, month = 1, day = 1\<rparr>" by simp
  have f: "date_lt march_14 \<lparr>year = 2030, month = 1, day = 1\<rparr>" by (simp add: date_lt_def)
  from process_date_rejects_future [of ?parse, OF p f] show ?thesis by simp
qed

text \<open>By contrast, a date that is not in the future is inserted under the stored name.\<close>

lemma process_date_adds_past:
  assumes "parse text = Inr birthday" "\<not> date_lt today birthday" "fsm_data st uid = Some n"
    and "sqlite_int uid"
  shows "rows_of (db (fst (process_date parse today uid text st)))
      = rows_of (db st) @ [\<lparr>row_id = last_id (db st) + 1, row_name = n,
                            row_birthday_date = birthday, row_user_id = uid\<rparr>]"
  using assms
  by (simp add: process_date_def add_person_def clear_def Let_def split: sum.splits error.splits)

text \<open>An insertion that cannot bind the user's identifier fails and changes nothing.\<close>

lemma add_person_overflow:
  "\<not> sqlite_int uid \<Longrightarrow> add_person d name birthday uid = (d, False)"
  by (simp add: add_person_def split: option.splits)

end
